theory Spec2Isabelle
  imports Main "HOL-Library.Word"
begin

unbundle bit_operations_syntax

section \<open>ICMP echo messages of package net (ipraw_test.go)\<close>

text \<open>
  The embedding follows \<^verbatim>\<open>src/pkg/net/ipraw_test.go\<close>. Go's \<^verbatim>\<open>int\<close> fields are
  modelled as \<^typ>\<open>int\<close>: the code only converts them to \<^verbatim>\<open>byte\<close> (the low 8 bits) or
  shifts them right by 8 first, and both read the same bits of a 32-bit, a 64-bit and an
  unbounded integer. \<^verbatim>\<open>byte\<close> is \<^typ>\<open>8 word\<close>, \<^verbatim>\<open>uint32\<close> is \<^typ>\<open>32 word\<close> with its
  wrap-around. A \<^verbatim>\<open>[]byte\<close> field that may be \<^verbatim>\<open>nil\<close> is a \<^typ>\<open>8 word list option\<close>,
  \<^term>\<open>None\<close> being the nil slice. A run-time panic is an error value.
\<close>

type_synonym byte = "8 word"
type_synonym uint32 = "32 word"

subsection \<open>Data\<close>

definition icmpv4EchoRequest :: int where "icmpv4EchoRequest = 8"
definition icmpv4EchoReply :: int where "icmpv4EchoReply = 0"
definition icmpv6EchoRequest :: int where "icmpv6EchoRequest = 128"
definition icmpv6EchoReply :: int where "icmpv6EchoReply = 129"

text \<open>\<^verbatim>\<open>type icmpEcho struct { ID int; Seq int; Data []byte }\<close>\<close>

record icmpEcho =
  ID :: int
  Seq :: int
  Data :: "byte list option"

text \<open>
  \<^verbatim>\<open>icmpMessageBody\<close> is an interface whose only implementation is \<^verbatim>\<open>*icmpEcho\<close>:
  a non-nil interface value holds either a nil pointer or a pointer to an echo body.
\<close>

datatype icmpMessageBody = NilEcho | Echo icmpEcho

text \<open>\<^verbatim>\<open>type icmpMessage struct { Type int; Code int; Checksum int; Body icmpMessageBody }\<close>\<close>

record icmpMessage =
  Type :: int
  Code :: int
  Checksum :: int
  Body :: "icmpMessageBody option"

datatype error =
    MessageTooShort        \<comment> \<open>\<^verbatim>\<open>errors.New("message too short")\<close>\<close>
  | IndexOutOfRange        \<comment> \<open>panic: index out of range\<close>
  | SliceBoundsOutOfRange  \<comment> \<open>panic: slice bounds out of range\<close>
  | NilDereference         \<comment> \<open>panic: nil pointer dereference\<close>
  | ReadFailed             \<comment> \<open>the connection's read returned an error (the deadline included)\<close>

subsection \<open>Slices\<close>

text \<open>\<^verbatim>\<open>byte(x)\<close> of an \<^verbatim>\<open>int\<close>: the low 8 bits.\<close>

definition to_byte :: "int \<Rightarrow> byte" where
  "to_byte x = word_of_int x"

text \<open>The elements of a slice; the nil slice has none.\<close>

definition elems :: "byte list option \<Rightarrow> byte list" where
  "elems s = (case s of None \<Rightarrow> [] | Some xs \<Rightarrow> xs)"

text \<open>
  \<^verbatim>\<open>copy(dst, src)\<close> overwrites the first \<^verbatim>\<open>min(len(dst), len(src))\<close> elements of
  \<^verbatim>\<open>dst\<close>; the value is the new content of \<^verbatim>\<open>dst\<close>.
\<close>

definition copy_slice :: "byte list \<Rightarrow> byte list \<Rightarrow> byte list" where
  "copy_slice dst src = take (length dst) src @ drop (length src) dst"

subsection \<open>Encoding\<close>

text \<open>\<^verbatim>\<open>func (p *icmpEcho) Len() int\<close>\<close>

fun Len :: "icmpMessageBody \<Rightarrow> nat" where
  "Len NilEcho = 0"
| "Len (Echo p) = 4 + length (elems (Data p))"

text \<open>
  \<^verbatim>\<open>func (p *icmpEcho) Marshal() ([]byte, error)\<close>: a zeroed slice of \<^verbatim>\<open>4+len(p.Data)\<close>
  bytes, its first four bytes assigned, the data copied to \<^verbatim>\<open>b[4:]\<close>. On a nil
  receiver the read of \<^verbatim>\<open>p.Data\<close> panics.
\<close>

fun Marshal_Echo :: "icmpMessageBody \<Rightarrow> error + byte list" where
  "Marshal_Echo NilEcho = Inl NilDereference"
| "Marshal_Echo (Echo p) =
     (let b = replicate (4 + length (elems (Data p))) 0;
          b = b[0 := to_byte (drop_bit 8 (ID p)), 1 := to_byte (ID p)];
          b = b[2 := to_byte (drop_bit 8 (Seq p)), 3 := to_byte (Seq p)];
          b = take 4 b @ copy_slice (drop 4 b) (elems (Data p))
      in Inr b)"

text \<open>
  The summation loop of \<^verbatim>\<open>(*icmpMessage).Marshal\<close>:
  \<^verbatim>\<open>for i := 0; i < csumcv; i += 2 { s += uint32(b[i+1])<<8 | uint32(b[i]) }\<close>.
  With \<^verbatim>\<open>csumcv = len(b) - 1\<close> the index \<^verbatim>\<open>i+1\<close> stays below \<^verbatim>\<open>len(b)\<close>.
\<close>

function csum_loop :: "byte list \<Rightarrow> nat \<Rightarrow> nat \<Rightarrow> uint32 \<Rightarrow> uint32" where
  "csum_loop b csumcv i s =
     (if i < csumcv
      then csum_loop b csumcv (i + 2) (s + (push_bit 8 (ucast (b ! (i + 1))) OR ucast (b ! i)))
      else s)"
  by pat_completeness auto
termination
  by (relation "measure (\<lambda>(b, csumcv, i, s). csumcv - i)") auto

declare csum_loop.simps [simp del]

text \<open>The header followed by the body's encoding, when the body is present and not empty.\<close>

definition header_body :: "icmpMessage \<Rightarrow> error + byte list" where
  "header_body m =
     (let b = [to_byte (Type m), to_byte (Code m), 0, 0]
      in case Body m of
           None \<Rightarrow> Inr b
         | Some body \<Rightarrow>
             if Len body \<noteq> 0
             then (case Marshal_Echo body of Inl err \<Rightarrow> Inl err | Inr mb \<Rightarrow> Inr (b @ mb))
             else Inr b)"

text \<open>
  The checksum part of \<^verbatim>\<open>Marshal\<close>, on the bytes built so far: the sum of the loop
  and of the last byte when \<^verbatim>\<open>csumcv&1 == 0\<close>, then the two folding steps and the two
  \<^verbatim>\<open>^=\<close> assignments. The bytes start with the four header bytes, so
  \<^verbatim>\<open>csumcv\<close> is at least 3 and the indices \<^verbatim>\<open>csumcv\<close>, 2 and 3 are in range.
\<close>

definition checksum_sum :: "byte list \<Rightarrow> uint32" where
  "checksum_sum b =
     (let csumcv = length b - 1;
          s = csum_loop b csumcv 0 0
      in if csumcv AND 1 = 0 then s + ucast (b ! csumcv) else s)"

definition put_checksum :: "byte list \<Rightarrow> byte list" where
  "put_checksum b =
     (let s = checksum_sum b;
          s = drop_bit 16 s + (s AND 0xffff);
          s = s + drop_bit 16 s;
          b = b[2 := (b ! 2) XOR ucast (NOT s)];
          b = b[3 := (b ! 3) XOR ucast (drop_bit 8 (NOT s))]
      in b)"

text \<open>\<^verbatim>\<open>func (m *icmpMessage) Marshal() ([]byte, error)\<close>\<close>

definition Marshal :: "icmpMessage \<Rightarrow> error + byte list" where
  "Marshal m =
     (case header_body m of
        Inl err \<Rightarrow> Inl err
      | Inr b \<Rightarrow>
          if Type m = icmpv6EchoRequest \<or> Type m = icmpv6EchoReply then Inr b
          else Inr (put_checksum b))"

text \<open>
  What \<^verbatim>\<open>Marshal\<close> appends after the header: the echo body's four bytes and its data,
  nothing for a nil body.
\<close>

definition body_encoding :: "icmpMessageBody option \<Rightarrow> byte list" where
  "body_encoding body =
     (case body of
        Some (Echo p) \<Rightarrow>
          [to_byte (drop_bit 8 (ID p)), to_byte (ID p),
           to_byte (drop_bit 8 (Seq p)), to_byte (Seq p)] @ elems (Data p)
      | _ \<Rightarrow> [])"

text \<open>
  The encoding the specification compares \<^verbatim>\<open>Marshal\<close> with: zero the two checksum
  bytes, compute the checksum, write it over them.
\<close>

definition put_checksum_overwrite :: "byte list \<Rightarrow> byte list" where
  "put_checksum_overwrite b =
     (let b = b[2 := 0, 3 := 0];
          s = checksum_sum b;
          s = drop_bit 16 s + (s AND 0xffff);
          s = s + drop_bit 16 s;
          b = b[2 := ucast (NOT s)];
          b = b[3 := ucast (drop_bit 8 (NOT s))]
      in b)"

definition Marshal_zero_then_write :: "icmpMessage \<Rightarrow> error + byte list" where
  "Marshal_zero_then_write m =
     (case header_body m of
        Inl err \<Rightarrow> Inl err
      | Inr b \<Rightarrow>
          if Type m = icmpv6EchoRequest \<or> Type m = icmpv6EchoReply then Inr b
          else Inr (put_checksum_overwrite b))"

subsection \<open>Decoding\<close>

text \<open>
  \<^verbatim>\<open>func parseICMPEcho(b []byte) (*icmpEcho, error)\<close>. The composite literal reads
  \<^verbatim>\<open>b[0]\<close> to \<^verbatim>\<open>b[3]\<close> before anything else, so a slice of fewer than four bytes
  panics with an index out of range.
\<close>

definition parseICMPEcho :: "byte list \<Rightarrow> error + icmpEcho" where
  "parseICMPEcho b =
     (let bodylen = length b
      in if bodylen < 4 then Inl IndexOutOfRange
         else
           let p = \<lparr>ID = push_bit 8 (uint (b ! 0)) OR uint (b ! 1),
                    Seq = push_bit 8 (uint (b ! 2)) OR uint (b ! 3),
                    Data = None\<rparr>
           in if bodylen > 4
              then Inr (p\<lparr>Data := Some (copy_slice (replicate (bodylen - 4) 0) (drop 4 b))\<rparr>)
              else Inr p)"

text \<open>\<^verbatim>\<open>func parseICMPMessage(b []byte) (*icmpMessage, error)\<close>\<close>

definition parseICMPMessage :: "byte list \<Rightarrow> error + icmpMessage" where
  "parseICMPMessage b =
     (let msglen = length b
      in if msglen < 4 then Inl MessageTooShort
         else
           let m = \<lparr>Type = uint (b ! 0), Code = uint (b ! 1),
                    Checksum = push_bit 8 (uint (b ! 2)) OR uint (b ! 3),
                    Body = None\<rparr>
           in if msglen > 4 \<and>
                 (Type m = icmpv4EchoRequest \<or> Type m = icmpv4EchoReply \<or>
                  Type m = icmpv6EchoRequest \<or> Type m = icmpv6EchoReply)
              then (case parseICMPEcho (drop 4 b) of
                      Inl err \<Rightarrow> Inl err
                    | Inr p \<Rightarrow> Inr (m\<lparr>Body := Some (Echo p)\<rparr>))
              else Inr m)"

subsection \<open>The receive loop of the echo tests\<close>

text \<open>
  \<^verbatim>\<open>func ipv4Payload(b []byte) []byte\<close>: \<^verbatim>\<open>b[hdrlen:]\<close> panics when \<^verbatim>\<open>hdrlen\<close>
  exceeds \<^verbatim>\<open>len(b)\<close>.
\<close>

definition ipv4Payload :: "byte list \<Rightarrow> error + byte list" where
  "ipv4Payload b =
     (if length b < 20 then Inr b
      else
        let hdrlen = push_bit 2 (unat ((b ! 0) AND 0x0f))
        in if hdrlen > length b then Inl SliceBoundsOutOfRange else Inr (drop hdrlen b))"

text \<open>
  The connection is outside the repository's sources; it is the list of what its
  successive reads deliver, a datagram or an error. A read copies the datagram into the
  buffer \<^verbatim>\<open>rb\<close>, cut to the buffer's length; the tests ignore the count it returns and
  parse the whole buffer. When nothing more arrives the deadline set by
  \<^verbatim>\<open>c.SetDeadline\<close> makes the read fail.
\<close>

datatype read_result = ReadError | Datagram "byte list"

text \<open>
  One round of the loop up to the decoded message: read, strip the IPv4 header
  (\<^verbatim>\<open>TestConnICMPEcho\<close> on \<^verbatim>\<open>ip4\<close> only, \<open>strip\<close>), parse. The buffer variable is
  reassigned, so the next round reads into the stripped slice.
\<close>

definition read_parse :: "bool \<Rightarrow> byte list \<Rightarrow> byte list \<Rightarrow> error + (byte list \<times> icmpMessage)" where
  "read_parse strip rb d =
     (case (if strip then ipv4Payload (copy_slice rb d) else Inr (copy_slice rb d)) of
        Inl err \<Rightarrow> Inl err
      | Inr rb' \<Rightarrow>
          (case parseICMPMessage rb' of
             Inl err \<Rightarrow> Inl err
           | Inr m \<Rightarrow> Inr (rb', m)))"

text \<open>
  The \<^verbatim>\<open>for { ... }\<close> loop of \<^verbatim>\<open>TestConnICMPEcho\<close> and \<^verbatim>\<open>TestPacketConnICMPEcho\<close>:
  a failed read or parse ends the test (\<^verbatim>\<open>t.Fatalf\<close>), an echo request is skipped
  (\<^verbatim>\<open>continue\<close>), any other message leaves the loop (\<^verbatim>\<open>break\<close>).
\<close>

fun echo_loop :: "bool \<Rightarrow> read_result list \<Rightarrow> byte list \<Rightarrow> error + icmpMessage" where
  "echo_loop strip [] rb = Inl ReadFailed"
| "echo_loop strip (ReadError # rs) rb = Inl ReadFailed"
| "echo_loop strip (Datagram d # rs) rb =
     (case read_parse strip rb d of
        Inl err \<Rightarrow> Inl err
      | Inr (rb', m) \<Rightarrow>
          if Type m = icmpv4EchoRequest \<or> Type m = icmpv6EchoRequest
          then echo_loop strip rs rb'
          else Inr m)"

text \<open>An echo request of either family, the case the loop skips.\<close>

definition is_echo_request :: "icmpMessage \<Rightarrow> bool" where
  "is_echo_request m \<longleftrightarrow> Type m = icmpv4EchoRequest \<or> Type m = icmpv6EchoRequest"

text \<open>
  A packet whose decoded type is an echo request: the packet decoded on its own, not
  through the loop's buffer.
\<close>

definition packet_is_request :: "byte list \<Rightarrow> bool" where
  "packet_is_request d =
     (case parseICMPMessage d of Inr m \<Rightarrow> is_echo_request m | Inl err \<Rightarrow> False)"

text \<open>
  The message both tests send and expect back: \<^verbatim>\<open>Type: typ, Code: 0\<close> and an echo
  body with \<^verbatim>\<open>ID: xid, Seq: xseq\<close> and the data
  \<^verbatim>\<open>bytes.Repeat([]byte("Go Go Gadget Ping!!!"), 3)\<close>; \<^verbatim>\<open>wb\<close> is its encoding, which
  never fails.
\<close>

definition gadget_ping :: "byte list" where
  "gadget_ping = [0x47, 0x6F, 0x20, 0x47, 0x6F, 0x20, 0x47, 0x61, 0x64, 0x67,
                  0x65, 0x74, 0x20, 0x50, 0x69, 0x6E, 0x67, 0x21, 0x21, 0x21]"

definition echo_test_message :: "int \<Rightarrow> int \<Rightarrow> int \<Rightarrow> icmpMessage" where
  "echo_test_message typ xid xseq =
     \<lparr>Type = typ, Code = 0, Checksum = 0,
      Body = Some (Echo \<lparr>ID = xid, Seq = xseq,
                         Data = Some (concat (replicate 3 gadget_ping))\<rparr>)\<rparr>"

definition wire_bytes :: "icmpMessage \<Rightarrow> byte list" where
  "wire_bytes m = (case Marshal m of Inr wb \<Rightarrow> wb | Inl err \<Rightarrow> [])"

text \<open>
  What a raw IPv4 socket delivers in front of such a message: a 20-byte IPv4 header
  without options (version 4, header length 5 words, total length 88, protocol 1) between
  loopback addresses.
\<close>

definition ipv4_header :: "byte list" where
  "ipv4_header = [0x45, 0x00, 0x00, 0x58, 0x00, 0x00, 0x40, 0x00, 0x40, 0x01, 0x3C, 0xA3,
                  0x7F, 0x00, 0x00, 0x01, 0x7F, 0x00, 0x00, 0x01]"

subsection \<open>Verifying a received message\<close>

text \<open>
  The check a receiver makes on an ICMP message (RFC 1071): the sum of the message's 16-bit
  words in network byte order, a last odd byte padded with a zero byte on the right, with
  the carries folded back into 16 bits. A message is intact when the folded sum is
  \<open>0xFFFF\<close>. The sum is over the natural numbers, so it does not overflow.
\<close>

fun inet_sum :: "byte list \<Rightarrow> nat" where
  "inet_sum (hi # lo # rest) = 256 * unat hi + unat lo + inet_sum rest"
| "inet_sum [hi] = 256 * unat hi"
| "inet_sum [] = 0"

function inet_fold :: "nat \<Rightarrow> nat" where
  "inet_fold n = (if n < 65536 then n else inet_fold (n div 65536 + n mod 65536))"
  by pat_completeness auto
termination
proof (relation "measure (\<lambda>n. n)")
  show "wf (measure (\<lambda>n::nat. n))" by simp
next
  fix n :: nat
  assume a: "\<not> n < 65536"
  have e: "n = 65536 * (n div 65536) + n mod 65536" by simp
  have "1 \<le> n div 65536" using a by (simp add: div_greater_zero_iff Suc_le_eq)
  with e have "n div 65536 + n mod 65536 < n" by linarith
  then show "(n div 65536 + n mod 65536, n) \<in> measure (\<lambda>n. n)" by simp
qed

text \<open>
  The sum that the loop of \<^verbatim>\<open>Marshal\<close> and its last-byte step form, read over the
  natural numbers: the bytes taken in pairs, low byte first.
\<close>

fun le_sum :: "byte list \<Rightarrow> nat" where
  "le_sum (lo # hi # rest) = unat lo + 256 * unat hi + le_sum rest"
| "le_sum [lo] = unat lo"
| "le_sum [] = 0"

section \<open>Properties\<close>

lemmas icmp_types =
  icmpv4EchoRequest_def icmpv4EchoReply_def icmpv6EchoRequest_def icmpv6EchoReply_def

lemma Marshal_Echo_bytes:
  "Marshal_Echo (Echo p) =
     Inr ([to_byte (drop_bit 8 (ID p)), to_byte (ID p),
           to_byte (drop_bit 8 (Seq p)), to_byte (Seq p)] @ elems (Data p))"
proof -
  have "replicate (4 + length (elems (Data p))) (0::byte) =
        [0, 0, 0, 0] @ replicate (length (elems (Data p))) 0"
    by (simp add: replicate_add numeral_eq_Suc)
  then show ?thesis
    by (simp add: copy_slice_def Let_def)
qed

subsection \<open>Helper lemmas\<close>

text \<open>The big-endian 16-bit value of two bytes, as the parsers compute it.\<close>

lemma be16: "push_bit 8 (uint (a::byte)) OR uint (b::byte) = 256 * uint a + uint b"
proof -
  have "uint b < 2 ^ 8" using uint_bounded [of b] by simp
  then have t: "take_bit 8 (uint b) = uint b"
    by (simp add: take_bit_int_eq_self_iff)
  then have "push_bit 8 (uint a) OR uint b = concat_bit 8 (uint b) (uint a)"
    by (simp add: concat_bit_def or.commute)
  also have "\<dots> = take_bit 8 (uint b) + push_bit 8 (uint a)"
    by (rule concat_bit_eq)
  finally show ?thesis
    using t by (simp add: push_bit_eq_mult)
qed

text \<open>The shape of an encoded message.\<close>

lemma header_body_bytes:
  "header_body m = Inr ([to_byte (Type m), to_byte (Code m), 0, 0] @ body_encoding (Body m))"
proof (cases "Body m")
  case None
  then show ?thesis by (simp add: header_body_def body_encoding_def)
next
  case (Some body)
  then show ?thesis
    by (cases body)
      (simp_all add: header_body_def body_encoding_def Marshal_Echo_bytes
        del: Marshal_Echo.simps(2))
qed

lemma put_checksum_shape:
  "\<exists>x y. put_checksum ([t, c, 0, 0] @ rest) = [t, c, x, y] @ rest"
  by (simp add: put_checksum_def Let_def)

lemma put_checksum_overwrite_eq:
  "put_checksum_overwrite ([t, c, 0, 0] @ rest) = put_checksum ([t, c, 0, 0] @ rest)"
  by (simp add: put_checksum_def put_checksum_overwrite_def Let_def)

lemma Marshal_eq_zero_then_write: "Marshal m = Marshal_zero_then_write m"
  by (simp add: Marshal_def Marshal_zero_then_write_def header_body_bytes
      put_checksum_overwrite_eq del: append_Cons)

lemma header_body_Checksum: "header_body (m\<lparr>Checksum := c\<rparr>) = header_body m"
  by (simp add: header_body_def)

lemma Marshal_Checksum: "Marshal (m\<lparr>Checksum := c\<rparr>) = Marshal m"
  by (simp add: Marshal_def header_body_bytes)

lemma Marshal_shape:
  "\<exists>x y. Marshal m = Inr ([to_byte (Type m), to_byte (Code m), x, y] @ body_encoding (Body m))
      \<and> (Type m = icmpv6EchoRequest \<or> Type m = icmpv6EchoReply \<longrightarrow> x = 0 \<and> y = 0)"
proof (cases "Type m = icmpv6EchoRequest \<or> Type m = icmpv6EchoReply")
  case True
  then show ?thesis by (simp add: Marshal_def header_body_bytes)
next
  case False
  obtain x y where "put_checksum ([to_byte (Type m), to_byte (Code m), 0, 0] @ body_encoding (Body m))
      = [to_byte (Type m), to_byte (Code m), x, y] @ body_encoding (Body m)"
    using put_checksum_shape by blast
  with False show ?thesis by (simp add: Marshal_def header_body_bytes del: append_Cons)
qed

lemma uint_to_byte: "0 \<le> x \<Longrightarrow> x < 256 \<Longrightarrow> uint (to_byte x) = x"
  by (simp add: to_byte_def uint_word_of_int take_bit_eq_mod)

lemma be16_to_byte:
  assumes "0 \<le> x" and "x < 65536"
  shows "256 * uint (to_byte (drop_bit 8 x)) + uint (to_byte x) = x"
proof -
  have d: "drop_bit 8 x = x div 256" by (simp add: drop_bit_eq_div)
  have "0 \<le> x div 256" and "x div 256 < 256" using assms by auto
  then have "uint (to_byte (drop_bit 8 x)) = x div 256"
    by (simp add: d uint_to_byte)
  moreover have "uint (to_byte x) = x mod 256"
    by (simp add: to_byte_def uint_word_of_int take_bit_eq_mod)
  ultimately show ?thesis by simp
qed

lemma parse_encoded:
  assumes "uint t = icmpv4EchoRequest \<or> uint t = icmpv4EchoReply \<or>
           uint t = icmpv6EchoRequest \<or> uint t = icmpv6EchoReply"
  shows "parseICMPMessage ([t, c, x, y] @ [i1, i0, s1, s0] @ d) =
     Inr \<lparr>Type = uint t, Code = uint c, Checksum = 256 * uint x + uint y,
          Body = Some (Echo \<lparr>ID = 256 * uint i1 + uint i0, Seq = 256 * uint s1 + uint s0,
                             Data = (if d = [] then None else Some d)\<rparr>)\<rparr>"
  using assms
  by (auto simp add: parseICMPMessage_def parseICMPEcho_def be16 Let_def copy_slice_def)

text \<open>A message the receive loop returns is never an echo request.\<close>

lemma echo_loop_not_request:
  "echo_loop strip rs rb = Inr m \<Longrightarrow> \<not> is_echo_request m"
proof (induction rs arbitrary: rb)
  case Nil
  then show ?case by simp
next
  case (Cons r rs)
  show ?case
  proof (cases r)
    case ReadError
    with Cons.prems show ?thesis by simp
  next
    case (Datagram d)
    show ?thesis
    proof (cases "read_parse strip rb d")
      case (Inl err)
      with Cons.prems Datagram show ?thesis by simp
    next
      case (Inr x)
      obtain rb' m' where x: "x = (rb', m')" by (cases x)
      show ?thesis
      proof (cases "Type m' = icmpv4EchoRequest \<or> Type m' = icmpv6EchoRequest")
        case True
        with Cons.prems Datagram Inr x have "echo_loop strip rs rb' = Inr m" by simp
        then show ?thesis by (rule Cons.IH)
      next
        case False
        with Cons.prems Datagram Inr x have "m = m'" by simp
        with False show ?thesis by (simp add: is_echo_request_def)
      qed
    qed
  qed
qed

text \<open>
  The loop that keeps its buffer (\<^verbatim>\<open>TestPacketConnICMPEcho\<close>, and \<^verbatim>\<open>TestConnICMPEcho\<close>
  on \<^verbatim>\<open>ip6\<close>), against the packets themselves: with a buffer of at least eight bytes
  and packets that each decode on their own, it skips the packets that are echo requests
  and returns a message with the type, code and checksum of the first packet that is not.
\<close>

lemma length_copy_slice: "length (copy_slice rb d) = length rb"
  by (simp add: copy_slice_def)

lemma nth_copy_slice: "i < length rb \<Longrightarrow> i < length d \<Longrightarrow> copy_slice rb d ! i = d ! i"
  by (simp add: copy_slice_def nth_append)

lemma parse_header:
  "parseICMPMessage b = Inr m \<Longrightarrow>
   4 \<le> length b \<and> Type m = uint (b ! 0) \<and> Code m = uint (b ! 1) \<and>
   Checksum m = push_bit 8 (uint (b ! 2)) OR uint (b ! 3)"
  by (auto simp add: parseICMPMessage_def Let_def split: if_splits sum.splits)

lemma parse_long:
  assumes "8 \<le> length b"
  shows "\<exists>m. parseICMPMessage b = Inr m"
  using assms by (auto simp add: parseICMPMessage_def parseICMPEcho_def Let_def)

lemma parse_buffer:
  assumes rb: "8 \<le> length rb" and d: "parseICMPMessage d = Inr m'"
  shows "\<exists>m. parseICMPMessage (copy_slice rb d) = Inr m \<and>
           Type m = Type m' \<and> Code m = Code m' \<and> Checksum m = Checksum m'"
proof -
  from rb obtain m where m: "parseICMPMessage (copy_slice rb d) = Inr m"
    using parse_long [of "copy_slice rb d"] by (auto simp add: length_copy_slice)
  from d have hd: "4 \<le> length d" "Type m' = uint (d ! 0)" "Code m' = uint (d ! 1)"
      "Checksum m' = push_bit 8 (uint (d ! 2)) OR uint (d ! 3)"
    using parse_header [of d m'] by simp_all
  from m have hb: "Type m = uint (copy_slice rb d ! 0)" "Code m = uint (copy_slice rb d ! 1)"
      "Checksum m = push_bit 8 (uint (copy_slice rb d ! 2)) OR uint (copy_slice rb d ! 3)"
    using parse_header [of "copy_slice rb d" m] by simp_all
  have "copy_slice rb d ! 0 = d ! 0" "copy_slice rb d ! 1 = d ! 1"
       "copy_slice rb d ! 2 = d ! 2" "copy_slice rb d ! 3 = d ! 3"
    using rb hd(1) by (auto intro: nth_copy_slice)
  with m hd hb show ?thesis by simp
qed

lemma echo_loop_keeps_buffer:
  assumes "8 \<le> length rb" and "\<forall>d \<in> set ds. \<exists>m'. parseICMPMessage d = Inr m'"
  shows "case dropWhile packet_is_request ds of
           [] \<Rightarrow> echo_loop False (map Datagram ds) rb = Inl ReadFailed
         | d # rest \<Rightarrow>
             (\<exists>m m'. echo_loop False (map Datagram ds) rb = Inr m \<and>
                      parseICMPMessage d = Inr m' \<and>
                      Type m = Type m' \<and> Code m = Code m' \<and> Checksum m = Checksum m')"
  using assms
proof (induction ds arbitrary: rb)
  case Nil
  then show ?case by simp
next
  case (Cons d ds)
  from Cons.prems(2) obtain m' where m': "parseICMPMessage d = Inr m'" by auto
  with Cons.prems(1) obtain m where
    m: "parseICMPMessage (copy_slice rb d) = Inr m" and
    eq: "Type m = Type m'" "Code m = Code m'" "Checksum m = Checksum m'"
    using parse_buffer [of rb d m'] by blast
  have rp: "read_parse False rb d = Inr (copy_slice rb d, m)"
    by (simp add: read_parse_def m)
  show ?case
  proof (cases "packet_is_request d")
    case True
    with m' eq have "Type m = icmpv4EchoRequest \<or> Type m = icmpv6EchoRequest"
      by (simp add: packet_is_request_def is_echo_request_def)
    then have e: "echo_loop False (map Datagram (d # ds)) rb =
               echo_loop False (map Datagram ds) (copy_slice rb d)"
      by (simp add: rp)
    have dw: "dropWhile packet_is_request (d # ds) = dropWhile packet_is_request ds"
      using True by simp
    have l: "8 \<le> length (copy_slice rb d)"
      using Cons.prems(1) by (simp add: length_copy_slice)
    have r: "\<forall>d \<in> set ds. \<exists>m'. parseICMPMessage d = Inr m'"
      using Cons.prems(2) by simp
    have ih: "case dropWhile packet_is_request ds of
           [] \<Rightarrow> echo_loop False (map Datagram ds) (copy_slice rb d) = Inl ReadFailed
         | x # rest \<Rightarrow>
             (\<exists>n n'. echo_loop False (map Datagram ds) (copy_slice rb d) = Inr n \<and>
                      parseICMPMessage x = Inr n' \<and>
                      Type n = Type n' \<and> Code n = Code n' \<and> Checksum n = Checksum n')"
      using l r by (rule Cons.IH)
    show ?thesis
      unfolding dw e by (fact ih)
  next
    case False
    with m' eq have "\<not> (Type m = icmpv4EchoRequest \<or> Type m = icmpv6EchoRequest)"
      by (simp add: packet_is_request_def is_echo_request_def)
    then have "echo_loop False (map Datagram (d # ds)) rb = Inr m"
      by (simp add: rp)
    with False m' eq show ?thesis by simp
  qed
qed

text \<open>The checksum: what the 32-bit arithmetic computes, and what a receiver sums.\<close>

lemma pair_word:
  "(push_bit 8 (ucast (hi::byte)) OR ucast (lo::byte) :: uint32) =
     word_of_nat (unat lo + 256 * unat hi)"
proof -
  have e: "push_bit 8 (ucast hi) OR ucast lo = push_bit 8 (ucast hi :: uint32) + ucast lo"
    by (rule disjunctive_add [symmetric]) (auto simp add: bit_simps dest: bit_imp_le_length)
  show ?thesis
    unfolding e by (simp add: push_bit_eq_mult)
qed

lemma csum_loop_sum:
  "even i \<Longrightarrow> i \<le> length b \<Longrightarrow>
   (let s' = csum_loop b (length b - 1) i s
    in if odd (length b) then s' + ucast (b ! (length b - 1)) else s') =
   s + word_of_nat (le_sum (drop i b))"
proof (induction "length b - i" arbitrary: i s rule: less_induct)
  case less
  show ?case
  proof (cases "i < length b - 1")
    case True
    then have d: "drop i b = b ! i # b ! (i + 1) # drop (i + 2) b"
      by (simp add: Cons_nth_drop_Suc)
    have "(let s' = csum_loop b (length b - 1) (i + 2)
                      (s + (push_bit 8 (ucast (b ! (i + 1))) OR ucast (b ! i)))
           in if odd (length b) then s' + ucast (b ! (length b - 1)) else s') =
          (s + (push_bit 8 (ucast (b ! (i + 1))) OR ucast (b ! i))) +
            word_of_nat (le_sum (drop (i + 2) b))"
      using True less.prems by (intro less.hyps) auto
    moreover have "csum_loop b (length b - 1) i s =
        csum_loop b (length b - 1) (i + 2)
          (s + (push_bit 8 (ucast (b ! (i + 1))) OR ucast (b ! i)))"
      using True by (subst csum_loop.simps) simp
    ultimately show ?thesis
      by (simp add: d pair_word)
  next
    case False
    then have c: "csum_loop b (length b - 1) i s = s"
      by (subst csum_loop.simps) simp
    show ?thesis
    proof (cases "odd (length b)")
      case True
      from True less.prems have "i \<noteq> length b" by auto
      with less.prems False have i: "i = length b - 1" by linarith
      from True have "0 < length b" by (cases "length b") simp_all
      with i have "drop i b = [b ! (length b - 1)]"
        using Cons_nth_drop_Suc [of "length b - 1" b] by simp
      with True c show ?thesis by simp
    next
      case False
      with less.prems have "i \<noteq> length b - 1 \<or> length b = 0"
        by (cases "length b") auto
      with less.prems \<open>\<not> i < length b - 1\<close> have "i = length b" by linarith
      with False c show ?thesis by simp
    qed
  qed
qed

lemma checksum_sum_eq:
  assumes "0 < length b"
  shows "checksum_sum b = word_of_nat (le_sum b)"
proof -
  have p: "(length b - 1) AND 1 = 0 \<longleftrightarrow> odd (length b)"
    using assms by (cases "length b") (simp_all add: and_one_eq mod_2_eq_odd)
  have l: "(let s' = csum_loop b (length b - 1) 0 0
         in if odd (length b) then s' + ucast (b ! (length b - 1)) else s') =
        word_of_nat (le_sum b)"
    using csum_loop_sum [of 0 b 0] by simp
  show ?thesis
    unfolding checksum_sum_def Let_def p using l unfolding Let_def .
qed

lemma ucast_not_16: "(ucast (NOT (s::uint32)) :: 16 word) = NOT (ucast s)"
  by (rule bit_word_eqI) (auto simp add: bit_simps)

lemma lo_byte: "(ucast (NOT (s::uint32)) :: byte) = ucast (ucast (NOT s) :: 16 word)"
  by (rule bit_word_eqI) (auto simp add: bit_simps)

lemma hi_byte: "(ucast (drop_bit 8 (NOT (s::uint32))) :: byte) = ucast (drop_bit 8 (ucast (NOT s) :: 16 word))"
  by (rule bit_word_eqI) (auto simp add: bit_simps)

lemma unat_not_16: "unat (NOT (v :: 16 word)) = 65535 - unat v"
proof -
  have "v + NOT v = - 1" by simp
  then have "unat (v + NOT v) = 65535"
    by (simp add: unsigned_minus_1_eq_mask mask_eq_exp_minus_1)
  moreover have "unat (v + NOT v) = (unat v + unat (NOT v)) mod 65536"
    using unat_word_ariths(1) [of v "NOT v"] by simp
  ultimately have e: "(unat v + unat (NOT v)) mod 65536 = 65535" by simp
  have b: "unat v < 65536" "unat (NOT v) < 65536"
    using unsigned_less [of v] unsigned_less [of "NOT v"] by simp_all
  show ?thesis
  proof (cases "unat v + unat (NOT v) < 65536")
    case True
    with e show ?thesis by simp
  next
    case False
    with b have "(unat v + unat (NOT v)) mod 65536 = unat v + unat (NOT v) - 65536"
      by (simp add: le_mod_geq)
    with e b False show ?thesis by linarith
  qed
qed

lemma bytes_of_16: "unat (ucast (w :: 16 word) :: byte) + 256 * unat (ucast (drop_bit 8 w) :: byte) = unat w"
proof -
  have w: "unat w < 65536" using unsigned_less [of w] by simp
  have "unat (ucast w :: byte) = unat w mod 256"
    by (simp add: unsigned_ucast_eq take_bit_eq_mod)
  moreover have "unat (drop_bit 8 w) = unat w div 256"
    by (simp add: drop_bit_eq_div unat_div_distrib)
  then have "unat (ucast (drop_bit 8 w) :: byte) = unat w div 256"
    using w by (simp only: unsigned_ucast_eq take_bit_eq_mod) simp
  ultimately show ?thesis by simp
qed

lemma checksum_bytes:
  "unat (ucast (NOT (s::uint32)) :: byte) + 256 * unat (ucast (drop_bit 8 (NOT s)) :: byte)
     = 65535 - unat s mod 65536"
proof -
  have "unat (ucast (NOT s) :: 16 word) = 65535 - unat (ucast s :: 16 word)"
    by (simp add: ucast_not_16 unat_not_16)
  moreover have "unat (ucast s :: 16 word) = unat s mod 65536"
    by (simp add: unsigned_ucast_eq take_bit_eq_mod)
  ultimately show ?thesis
    by (simp add: lo_byte hi_byte bytes_of_16)
qed



lemma unat_fold1:
  assumes "S < 2 ^ 32"
  shows "unat (drop_bit 16 (word_of_nat S :: uint32) + (word_of_nat S AND 0xffff)) =
           S div 65536 + S mod 65536"
proof -
  have u: "unat (word_of_nat S :: uint32) = S"
    using assms by (simp add: unat_of_nat)
  have a: "unat (drop_bit 16 (word_of_nat S :: uint32)) = S div 65536"
    by (simp add: drop_bit_eq_div unat_div_distrib u)
  have "(word_of_nat S :: uint32) AND 0xffff = take_bit 16 (word_of_nat S)"
    by (simp add: take_bit_eq_mask mask_eq_exp_minus_1)
  then have b: "unat ((word_of_nat S :: uint32) AND 0xffff) = S mod 65536"
    by (simp add: take_bit_eq_mod unat_mod_distrib u)
  have "S div 65536 < 65536" using assms by simp
  moreover have "S mod 65536 < 65536" by simp
  ultimately have "S div 65536 + S mod 65536 < 2 ^ 32" by simp
  then have "unat (drop_bit 16 (word_of_nat S :: uint32)) +
             unat ((word_of_nat S :: uint32) AND 0xffff) < 2 ^ LENGTH(32)"
    by (simp only: a b) simp
  then show ?thesis
    by (simp only: unat_add_lem [THEN iffD1] a b)
qed

lemma unat_fold2:
  assumes "unat (s1 :: uint32) < 131072"
  shows "unat (s1 + drop_bit 16 s1) = unat s1 + unat s1 div 65536"
proof -
  have a: "unat (drop_bit 16 s1) = unat s1 div 65536"
    by (simp add: drop_bit_eq_div unat_div_distrib)
  have "unat s1 div 65536 < 2" using assms by simp
  with assms have "unat s1 + unat (drop_bit 16 s1) < 2 ^ LENGTH(32)"
    by (simp only: a) simp
  then show ?thesis
    by (simp only: unat_add_lem [THEN iffD1] a)
qed

lemma fold_congruent:
  fixes S :: nat
  defines "a \<equiv> S div 65536 + S mod 65536"
  defines "f \<equiv> (a + a div 65536) mod 65536"
  assumes "S < 2 ^ 32"
  shows "f \<le> 65535" and "65535 dvd (S + (65535 - f))" and "0 < S + (65535 - f)"
proof -
  define q r where "q = S div 65536" and "r = S mod 65536"
  have S: "S = 65536 * q + r" and r: "r < 65536" by (simp_all add: q_def r_def)
  have q: "q < 65536" using assms(3) by (simp add: q_def)
  have a: "a = q + r" by (simp add: a_def q_def r_def)
  show f: "f \<le> 65535"
  proof -
    have "f < 65536" by (simp add: f_def)
    then show ?thesis by simp
  qed
  show "65535 dvd (S + (65535 - f))"
  proof (cases "a < 65536")
    case True
    then have "f = a" by (simp add: f_def)
    with a S True have "S + (65535 - f) = 65535 * (q + 1)" by simp
    then show ?thesis by simp
  next
    case False
    with a q r have b: "65536 \<le> a" "a < 131071" by simp_all
    then have "a div 65536 = 1" by simp
    with b have "f = a - 65535" by (simp add: f_def le_mod_geq)
    with a S b have "S + (65535 - f) = 65535 * (q + 2)" by simp
    then show ?thesis by simp
  qed
  show "0 < S + (65535 - f)"
  proof (cases "S = 0")
    case True
    then have "f = 0" by (simp add: f_def a_def)
    then show ?thesis by simp
  next
    case False
    then show ?thesis by simp
  qed
qed


lemma le_sum_header:
  "le_sum ([t, c, x, y] @ rest) = unat t + 256 * unat c + unat x + 256 * unat y + le_sum rest"
  by simp

lemma unat_byte: "unat (x::byte) \<le> 255"
proof -
  have "unat x < 2 ^ LENGTH(8)" by (rule unsigned_less)
  then show ?thesis by simp
qed

lemma le_sum_bound: "le_sum xs \<le> 65535 * ((length xs + 1) div 2)"
proof (induction xs rule: le_sum.induct)
  case (1 lo hi rest)
  have "unat lo \<le> 255" "unat hi \<le> 255"
    by (rule unat_byte)+
  with 1 show ?case by simp
next
  case (2 lo)
  have "unat lo \<le> 255" by (rule unat_byte)
  then show ?case by simp
next
  case 3
  show ?case by simp
qed

lemma inet_sum_le_sum: "inet_sum xs mod 65535 = (256 * le_sum xs) mod 65535"
proof (induction xs rule: inet_sum.induct)
  case (1 hi lo rest)
  have "256 * le_sum (hi # lo # rest) =
        (256 * unat hi + unat lo + 256 * le_sum rest) + 65535 * unat lo"
    by simp
  then have "(256 * le_sum (hi # lo # rest)) mod 65535 =
        (256 * unat hi + unat lo + 256 * le_sum rest) mod 65535"
    by (simp only: mod_mult_self2)
  also have "\<dots> = (256 * unat hi + unat lo + inet_sum rest) mod 65535"
    using 1 by (metis mod_add_right_eq)
  finally show ?case by simp
next
  case (2 hi)
  show ?case by simp
next
  case 3
  show ?case by simp
qed

lemma le_sum_le_inet_sum: "le_sum xs \<le> 256 * inet_sum xs"
  by (induction xs rule: inet_sum.induct) simp_all

lemma inet_fold_65535:
  "0 < n \<Longrightarrow> 65535 dvd n \<Longrightarrow> inet_fold n = 65535"
proof (induction n rule: inet_fold.induct)
  case (1 n)
  show ?case
  proof (cases "n < 65536")
    case True
    from 1(3) obtain k where k: "n = 65535 * k" by (elim dvdE)
    with 1(2) True have "k = 1" by simp
    with k True show ?thesis by (subst inet_fold.simps) simp
  next
    case False
    have n: "n = 65535 * (n div 65536) + (n div 65536 + n mod 65536)" by simp
    from False have "0 < n div 65536 + n mod 65536" by (simp add: div_greater_zero_iff)
    moreover from 1(3) n have "65535 dvd (n div 65536 + n mod 65536)"
      by (metis dvd_add_right_iff dvd_triv_left)
    ultimately have "inet_fold (n div 65536 + n mod 65536) = 65535"
      using False by (intro 1(1)) simp_all
    with False show ?thesis by (subst inet_fold.simps) simp
  qed
qed


lemma put_checksum_verifies:
  assumes len: "length rest \<le> 131070"
  shows "inet_fold (inet_sum (put_checksum ([t, c, 0, 0] @ rest))) = 65535"
proof -
  let ?b = "[t, c, 0, 0] @ rest"
  define S where "S = le_sum ?b"
  define s1 :: uint32 where "s1 = drop_bit 16 (word_of_nat S) + (word_of_nat S AND 0xffff)"
  define s2 :: uint32 where "s2 = s1 + drop_bit 16 s1"
  define x :: byte where "x = ucast (NOT s2)"
  define y :: byte where "y = ucast (drop_bit 8 (NOT s2))"
  define a where "a = S div 65536 + S mod 65536"
  define f where "f = (a + a div 65536) mod 65536"
  have "S \<le> 65535 * ((length ?b + 1) div 2)"
    unfolding S_def by (rule le_sum_bound)
  also have "\<dots> \<le> 65535 * 65537"
    using len by simp
  finally have S: "S < 2 ^ 32" by simp
  have out: "put_checksum ?b = [t, c, x, y] @ rest"
    by (simp add: put_checksum_def checksum_sum_eq Let_def S_def s1_def s2_def x_def y_def)
  have u1: "unat s1 = a"
    unfolding s1_def a_def using S by (rule unat_fold1)
  have "a < 131072"
    using S by (simp add: a_def)
  with u1 have "unat s2 = a + a div 65536"
    unfolding s2_def using unat_fold2 [of s1] by simp
  then have xy: "unat x + 256 * unat y = 65535 - f"
    unfolding x_def y_def f_def by (simp only: checksum_bytes)
  have "le_sum ([t, c, x, y] @ rest) = S + (unat x + 256 * unat y)"
    by (simp add: S_def)
  with xy have T: "le_sum ([t, c, x, y] @ rest) = S + (65535 - f)"
    by simp
  have d: "65535 dvd (S + (65535 - f))" and pos: "0 < S + (65535 - f)"
    unfolding f_def a_def using S by (rule fold_congruent)+
  have "inet_sum ([t, c, x, y] @ rest) mod 65535 = (256 * (S + (65535 - f))) mod 65535"
    using inet_sum_le_sum [of "[t, c, x, y] @ rest"] by (simp only: T)
  also have "\<dots> = 0"
  proof -
    from d have "65535 dvd 256 * (S + (65535 - f))" by (rule dvd_mult)
    then show ?thesis by (simp only: mod_eq_0_iff_dvd)
  qed
  finally have d': "65535 dvd inet_sum ([t, c, x, y] @ rest)"
    by (simp add: mod_eq_0_iff_dvd)
  have "S + (65535 - f) \<le> 256 * inet_sum ([t, c, x, y] @ rest)"
    using le_sum_le_inet_sum [of "[t, c, x, y] @ rest"] by (simp only: T)
  with pos have "0 < inet_sum ([t, c, x, y] @ rest)" by linarith
  then have "inet_fold (inet_sum ([t, c, x, y] @ rest)) = 65535"
    using d' by (rule inet_fold_65535)
  with out show ?thesis by simp
qed

lemma le_sum_replicate: "le_sum (replicate (2 * k) v) = k * (257 * unat v)"
  by (induction k) simp_all

lemma inet_sum_replicate: "inet_sum (replicate (2 * k) v) = k * (257 * unat v)"
  by (induction k) simp_all

lemma le_sum_ff: "le_sum ([0x08, 0x00, 0, 0, 0, 0, 0, 0] @ replicate (2 * 65537) 0xFF) = 4294967303"
  by (simp only: append_Cons append_Nil le_sum.simps le_sum_replicate) simp

lemma big_checksum:
  "put_checksum ([0x08, 0x00, 0, 0, 0, 0, 0, 0] @ replicate (2 * 65537) 0xFF) =
     [0x08, 0x00, 0xF8, 0xFF, 0, 0, 0, 0] @ replicate (2 * 65537) 0xFF"
proof -
  have "checksum_sum ([0x08, 0x00, 0, 0, 0, 0, 0, 0] @ replicate (2 * 65537) 0xFF) = 7"
    by (simp only: checksum_sum_eq le_sum_ff length_append length_replicate list.size) simp
  then show ?thesis
    by (simp add: put_checksum_def Let_def del: replicate_Suc)
qed

subsection \<open>The checksum test vector\<close>

text \<open>
  Claim C1, as stated: the message with type 8, code 0 and an echo body with identifier
  \<open>0x1234\<close>, sequence number 1 and no data encodes to \<open>08 00 EC CA 12 34 00 01\<close>.
  The code does not produce these bytes, and they would not pass a receiver's check.
\<close>

theorem Marshal_vector_not_ECCA:
  "Marshal \<lparr>Type = 8, Code = 0, Checksum = 0,
            Body = Some (Echo \<lparr>ID = 0x1234, Seq = 0x0001, Data = Some []\<rparr>)\<rparr>
     \<noteq> Inr [0x08, 0x00, 0xEC, 0xCA, 0x12, 0x34, 0x00, 0x01]"
  by code_simp

text \<open>
  Claim C1, amended: the same message encodes to the eight bytes
  \<open>08 00 E5 CA 12 34 00 01\<close>, whether its empty data is an empty or a nil slice, and
  the checksum \<open>E5 CA\<close> is the one over the whole eight bytes: the message passes the
  receiver's check.
\<close>

theorem Marshal_vector_E5CA:
  "Marshal \<lparr>Type = 8, Code = 0, Checksum = 0,
            Body = Some (Echo \<lparr>ID = 0x1234, Seq = 0x0001, Data = Some []\<rparr>)\<rparr>
     = Inr [0x08, 0x00, 0xE5, 0xCA, 0x12, 0x34, 0x00, 0x01] \<and>
   Marshal \<lparr>Type = 8, Code = 0, Checksum = 0,
            Body = Some (Echo \<lparr>ID = 0x1234, Seq = 0x0001, Data = None\<rparr>)\<rparr>
     = Inr [0x08, 0x00, 0xE5, 0xCA, 0x12, 0x34, 0x00, 0x01] \<and>
   inet_fold (inet_sum [0x08, 0x00, 0xE5, 0xCA, 0x12, 0x34, 0x00, 0x01]) = 0xFFFF"
proof (intro conjI)
  show "Marshal \<lparr>Type = 8, Code = 0, Checksum = 0,
            Body = Some (Echo \<lparr>ID = 0x1234, Seq = 0x0001, Data = Some []\<rparr>)\<rparr>
     = Inr [0x08, 0x00, 0xE5, 0xCA, 0x12, 0x34, 0x00, 0x01]"
    by code_simp
  show "Marshal \<lparr>Type = 8, Code = 0, Checksum = 0,
            Body = Some (Echo \<lparr>ID = 0x1234, Seq = 0x0001, Data = None\<rparr>)\<rparr>
     = Inr [0x08, 0x00, 0xE5, 0xCA, 0x12, 0x34, 0x00, 0x01]"
    by code_simp
  show "inet_fold (inet_sum [0x08, 0x00, 0xE5, 0xCA, 0x12, 0x34, 0x00, 0x01]) = 0xFFFF"
    by simp
qed

subsection \<open>Decoding\<close>

text \<open>
  Claim C5: decoding fewer than four bytes fails with the error "message too short", and
  no message is produced.
\<close>

theorem parseICMPMessage_too_short:
  "length b < 4 \<Longrightarrow> parseICMPMessage b = Inl MessageTooShort"
  by (simp add: parseICMPMessage_def)

theorem parseICMPMessage_too_short_witness:
  "parseICMPMessage [] = Inl MessageTooShort \<and>
   parseICMPMessage [0x08] = Inl MessageTooShort \<and>
   parseICMPMessage [0x08, 0x00, 0x00] = Inl MessageTooShort"
  using parseICMPMessage_too_short [of "[]"] parseICMPMessage_too_short [of "[0x08]"]
    parseICMPMessage_too_short [of "[0x08, 0x00, 0x00]"]
  by simp

text \<open>
  Claim C9: an input of at least four bytes whose first byte is none of 0, 8, 128 and 129
  decodes successfully to a message with the type, the code and the big-endian checksum of
  the header and with no body, whatever follows the header.
\<close>

theorem parseICMPMessage_unrecognized_type:
  assumes "4 \<le> length b" and "uint (b ! 0) \<notin> {0, 8, 128, 129}"
  shows "parseICMPMessage b =
           Inr \<lparr>Type = uint (b ! 0), Code = uint (b ! 1),
                Checksum = 256 * uint (b ! 2) + uint (b ! 3), Body = None\<rparr>"
  using assms by (simp add: parseICMPMessage_def icmp_types be16 Let_def)

theorem parseICMPMessage_unrecognized_type_witness:
  "parseICMPMessage [0xFF, 0x00, 0x00, 0x00, 0xAA, 0xBB] =
     Inr \<lparr>Type = 255, Code = 0, Checksum = 0, Body = None\<rparr>"
  using parseICMPMessage_unrecognized_type [of "[0xFF, 0x00, 0x00, 0x00, 0xAA, 0xBB]"]
  by simp

text \<open>
  Claim C7, as stated: an input of eight bytes with a recognized type decodes to an echo
  body whose payload is an empty slice that is not nil. The code leaves the payload nil.
\<close>

theorem parseICMPMessage_eight_bytes_payload_nil:
  "parseICMPMessage [0x08, 0x00, 0xE5, 0xCA, 0x12, 0x34, 0x00, 0x01] =
     Inr \<lparr>Type = 8, Code = 0, Checksum = 0xE5CA,
          Body = Some (Echo \<lparr>ID = 0x1234, Seq = 1, Data = None\<rparr>)\<rparr> \<and>
   parseICMPMessage [0x08, 0x00, 0xE5, 0xCA, 0x12, 0x34, 0x00, 0x01] \<noteq>
     Inr \<lparr>Type = 8, Code = 0, Checksum = 0xE5CA,
          Body = Some (Echo \<lparr>ID = 0x1234, Seq = 1, Data = Some []\<rparr>)\<rparr>"
  by (simp add: parseICMPMessage_def parseICMPEcho_def icmp_types Let_def)

text \<open>
  Claim C7, amended: an input of exactly eight bytes whose first byte is 0, 8, 128 or 129
  decodes to an echo body whose identifier is the big-endian 16-bit value of the bytes 4
  and 5, whose sequence number is that of the bytes 6 and 7, and whose payload is the nil
  slice (of length zero).
\<close>

theorem parseICMPMessage_eight_bytes:
  assumes "length b = 8" and "uint (b ! 0) \<in> {0, 8, 128, 129}"
  shows "parseICMPMessage b =
           Inr \<lparr>Type = uint (b ! 0), Code = uint (b ! 1),
                Checksum = 256 * uint (b ! 2) + uint (b ! 3),
                Body = Some (Echo \<lparr>ID = 256 * uint (b ! 4) + uint (b ! 5),
                                   Seq = 256 * uint (b ! 6) + uint (b ! 7),
                                   Data = None\<rparr>)\<rparr>"
  using assms
  by (auto simp add: parseICMPMessage_def parseICMPEcho_def icmp_types be16 Let_def)

theorem parseICMPMessage_eight_bytes_witness:
  "parseICMPMessage [0x81, 0x00, 0x00, 0x00, 0x12, 0x34, 0x00, 0x01] =
     Inr \<lparr>Type = 129, Code = 0, Checksum = 0,
          Body = Some (Echo \<lparr>ID = 0x1234, Seq = 1, Data = None\<rparr>)\<rparr>"
  using parseICMPMessage_eight_bytes [of "[0x81, 0x00, 0x00, 0x00, 0x12, 0x34, 0x00, 0x01]"]
  by simp

text \<open>
  Claim C3 says that an input with a recognized type and one to three bytes after the
  four-byte header fails with the too-short error. The code evaluated there:
  \<^verbatim>\<open>parseICMPEcho\<close> has no length check and indexes past the end of the body, which is
  a run-time panic and not the error that \<^verbatim>\<open>parseICMPMessage\<close> returns for a short
  header.
\<close>

theorem parseICMPMessage_truncated_body_panics:
  "parseICMPMessage [0x08, 0x00, 0x00, 0x00, 0x01] = Inl IndexOutOfRange \<and>
   parseICMPMessage [0x00, 0x00, 0x00, 0x00, 0x01, 0x02] = Inl IndexOutOfRange \<and>
   parseICMPMessage [0x80, 0x00, 0x00, 0x00, 0x01, 0x02, 0x03] = Inl IndexOutOfRange"
  by (simp add: parseICMPMessage_def parseICMPEcho_def icmp_types Let_def)

subsection \<open>Encoding\<close>

text \<open>
  Claim C6: for a message of type 128 or 129, \<^verbatim>\<open>Marshal\<close> computes no checksum: it
  returns the header and body as built, the two checksum bytes being the zeros of the
  header. The type byte, the code byte and the body's encoding are those of every other
  type: changing the type of the message changes nothing but the type byte and the two
  checksum bytes.
\<close>

theorem Marshal_ipv6_no_checksum:
  assumes "Type m = icmpv6EchoRequest \<or> Type m = icmpv6EchoReply"
  shows "Marshal m = header_body m \<and>
         Marshal m = Inr ([to_byte (Type m), to_byte (Code m), 0, 0] @ body_encoding (Body m)) \<and>
         (\<forall>t. \<exists>x y. Marshal (m\<lparr>Type := t\<rparr>) =
                  Inr ([to_byte t, to_byte (Code m), x, y] @ body_encoding (Body m)))"
proof (intro conjI allI)
  show "Marshal m = header_body m"
    using assms by (simp add: Marshal_def header_body_bytes)
  show "Marshal m = Inr ([to_byte (Type m), to_byte (Code m), 0, 0] @ body_encoding (Body m))"
    using assms by (simp add: Marshal_def header_body_bytes)
  fix t
  show "\<exists>x y. Marshal (m\<lparr>Type := t\<rparr>) =
                  Inr ([to_byte t, to_byte (Code m), x, y] @ body_encoding (Body m))"
    using Marshal_shape [of "m\<lparr>Type := t\<rparr>"] by auto
qed

theorem Marshal_ipv6_no_checksum_witness:
  "Marshal \<lparr>Type = 128, Code = 0, Checksum = 0,
            Body = Some (Echo \<lparr>ID = 0x1234, Seq = 1, Data = Some [0x47, 0x6F]\<rparr>)\<rparr> =
     Inr [0x80, 0x00, 0x00, 0x00, 0x12, 0x34, 0x00, 0x01, 0x47, 0x6F]"
proof -
  let ?m = "\<lparr>Type = 128, Code = 0, Checksum = 0,
            Body = Some (Echo \<lparr>ID = 0x1234, Seq = 1, Data = Some [0x47, 0x6F]\<rparr>)\<rparr>"
  have "Type ?m = icmpv6EchoRequest \<or> Type ?m = icmpv6EchoReply"
    by (simp add: icmp_types)
  from Marshal_ipv6_no_checksum [OF this] have "Marshal ?m = header_body ?m" by (rule conjunct1)
  moreover have "header_body ?m =
      Inr [0x80, 0x00, 0x00, 0x00, 0x12, 0x34, 0x00, 0x01, 0x47, 0x6F]"
    by code_simp
  ultimately show ?thesis by simp
qed

text \<open>
  Claim C4, as stated: the header's checksum bytes start as the content of the message's
  checksum field, and for some message with a nonzero checksum field the encoding differs
  from zeroing the field and writing the checksum. In the code the field is never read:
  with the field set to \<open>0x1234\<close> the encoding of an IPv4 message is the
  zero-then-write one, that of an IPv6 message has zero checksum bytes, and no message
  makes the two encodings differ.
\<close>

theorem Marshal_checksum_bytes_start_zero:
  "Marshal \<lparr>Type = 8, Code = 0, Checksum = 0x1234, Body = None\<rparr> = Inr [0x08, 0x00, 0xF7, 0xFF] \<and>
   Marshal_zero_then_write \<lparr>Type = 8, Code = 0, Checksum = 0x1234, Body = None\<rparr> =
     Inr [0x08, 0x00, 0xF7, 0xFF] \<and>
   Marshal \<lparr>Type = 128, Code = 0, Checksum = 0x1234, Body = None\<rparr> = Inr [0x80, 0x00, 0x00, 0x00] \<and>
   \<not> (\<exists>m. Checksum m \<noteq> 0 \<and> Marshal m \<noteq> Marshal_zero_then_write m)"
proof (intro conjI)
  show "Marshal \<lparr>Type = 8, Code = 0, Checksum = 0x1234, Body = None\<rparr> = Inr [0x08, 0x00, 0xF7, 0xFF]"
    by code_simp
  show "Marshal_zero_then_write \<lparr>Type = 8, Code = 0, Checksum = 0x1234, Body = None\<rparr> =
     Inr [0x08, 0x00, 0xF7, 0xFF]"
    by code_simp
  show "Marshal \<lparr>Type = 128, Code = 0, Checksum = 0x1234, Body = None\<rparr> = Inr [0x80, 0x00, 0x00, 0x00]"
    by code_simp
  show "\<not> (\<exists>m. Checksum m \<noteq> 0 \<and> Marshal m \<noteq> Marshal_zero_then_write m)"
    by (simp add: Marshal_eq_zero_then_write)
qed

text \<open>
  Claim C4, amended: \<^verbatim>\<open>Marshal\<close> builds the header with two zero checksum bytes and
  does not read the message's checksum field, so its result does not depend on that
  field, and XOR-ing the computed checksum into the header gives the bytes of the
  zero-then-write encoding, for every message.
\<close>

theorem Marshal_ignores_Checksum_field:
  "Marshal (m\<lparr>Checksum := c\<rparr>) = Marshal m \<and> Marshal m = Marshal_zero_then_write m"
  using Marshal_Checksum Marshal_eq_zero_then_write by simp

subsection \<open>Round trip\<close>

text \<open>
  Claim C2, as stated: decoding an encoded IPv6-family message gives back the checksum
  field the caller set, and the payload exactly. With the field set to \<open>0x1234\<close> the
  decoded checksum is 0; and an empty payload that is not nil comes back as the nil slice.
\<close>

theorem Marshal_parse_not_exact:
  "Marshal \<lparr>Type = 128, Code = 0, Checksum = 0x1234,
            Body = Some (Echo \<lparr>ID = 1, Seq = 1, Data = None\<rparr>)\<rparr> =
     Inr [0x80, 0x00, 0x00, 0x00, 0x00, 0x01, 0x00, 0x01] \<and>
   parseICMPMessage [0x80, 0x00, 0x00, 0x00, 0x00, 0x01, 0x00, 0x01] =
     Inr \<lparr>Type = 128, Code = 0, Checksum = 0,
          Body = Some (Echo \<lparr>ID = 1, Seq = 1, Data = None\<rparr>)\<rparr> \<and>
   Marshal \<lparr>Type = 8, Code = 0, Checksum = 0,
            Body = Some (Echo \<lparr>ID = 1, Seq = 1, Data = Some []\<rparr>)\<rparr> =
     Inr [0x08, 0x00, 0xF7, 0xFD, 0x00, 0x01, 0x00, 0x01] \<and>
   parseICMPMessage [0x08, 0x00, 0xF7, 0xFD, 0x00, 0x01, 0x00, 0x01] =
     Inr \<lparr>Type = 8, Code = 0, Checksum = 0xF7FD,
          Body = Some (Echo \<lparr>ID = 1, Seq = 1, Data = None\<rparr>)\<rparr>"
  by code_simp

text \<open>
  Claim C2, amended: for a message with type 0, 8, 128 or 129, a code in the range of a
  byte and an echo body whose identifier and sequence number are in the range of 16 bits,
  \<^verbatim>\<open>Marshal\<close> succeeds and \<^verbatim>\<open>parseICMPMessage\<close> of its result succeeds with the
  message's type and code and an echo body with its identifier, its sequence number and
  the bytes of its payload, the payload being the nil slice when it has no bytes. For the
  types 128 and 129 the decoded checksum is 0, whatever the message's checksum field was.
\<close>

theorem Marshal_parse_roundtrip:
  assumes ty: "Type m = icmpv4EchoRequest \<or> Type m = icmpv4EchoReply \<or>
               Type m = icmpv6EchoRequest \<or> Type m = icmpv6EchoReply"
    and code: "0 \<le> Code m" "Code m < 256"
    and body: "Body m = Some (Echo p)"
    and id: "0 \<le> ID p" "ID p < 65536"
    and seq: "0 \<le> Seq p" "Seq p < 65536"
  shows "\<exists>b m'. Marshal m = Inr b \<and> parseICMPMessage b = Inr m' \<and>
           Type m' = Type m \<and> Code m' = Code m \<and>
           Body m' = Some (Echo \<lparr>ID = ID p, Seq = Seq p,
                                 Data = (if elems (Data p) = [] then None
                                         else Some (elems (Data p)))\<rparr>) \<and>
           (Type m = icmpv6EchoRequest \<or> Type m = icmpv6EchoReply \<longrightarrow> Checksum m' = 0)"
proof -
  obtain x y where
    M: "Marshal m = Inr ([to_byte (Type m), to_byte (Code m), x, y] @ body_encoding (Body m))"
    and v6: "Type m = icmpv6EchoRequest \<or> Type m = icmpv6EchoReply \<longrightarrow> x = 0 \<and> y = 0"
    using Marshal_shape by blast
  have t: "uint (to_byte (Type m)) = Type m"
    using ty by (auto simp add: icmp_types uint_to_byte)
  have c: "uint (to_byte (Code m)) = Code m"
    using code by (simp add: uint_to_byte)
  have enc: "body_encoding (Body m) =
      [to_byte (drop_bit 8 (ID p)), to_byte (ID p),
       to_byte (drop_bit 8 (Seq p)), to_byte (Seq p)] @ elems (Data p)"
    by (simp add: body body_encoding_def)
  have P: "parseICMPMessage ([to_byte (Type m), to_byte (Code m), x, y] @ body_encoding (Body m)) =
     Inr \<lparr>Type = Type m, Code = Code m, Checksum = 256 * uint x + uint y,
          Body = Some (Echo \<lparr>ID = ID p, Seq = Seq p,
                             Data = (if elems (Data p) = [] then None
                                     else Some (elems (Data p)))\<rparr>)\<rparr>"
    unfolding enc using parse_encoded [of "to_byte (Type m)"] ty t c id seq
    by (simp only: be16_to_byte)
  show ?thesis
    using M P v6 by auto
qed

theorem Marshal_parse_roundtrip_witness:
  "\<exists>b m'. Marshal \<lparr>Type = 128, Code = 0, Checksum = 0,
            Body = Some (Echo \<lparr>ID = 0x1234, Seq = 1, Data = Some [0x47, 0x6F]\<rparr>)\<rparr> = Inr b \<and>
      parseICMPMessage b = Inr m' \<and> Type m' = 128 \<and> Code m' = 0 \<and>
      Body m' = Some (Echo \<lparr>ID = 0x1234, Seq = 1, Data = Some [0x47, 0x6F]\<rparr>) \<and>
      Checksum m' = 0"
  using Marshal_parse_roundtrip [of "\<lparr>Type = 128, Code = 0, Checksum = 0,
            Body = Some (Echo \<lparr>ID = 0x1234, Seq = 1, Data = Some [0x47, 0x6F]\<rparr>)\<rparr>"
          "\<lparr>ID = 0x1234, Seq = 1, Data = Some [0x47, 0x6F]\<rparr>"]
  by (simp add: icmp_types elems_def)

subsection \<open>The receive loop\<close>

text \<open>
  Claim C8 says that over incoming packets that each decode successfully the loop skips
  the echo requests and returns the first packet that is not one, so that after an echo
  request it returns the echo reply with the caller's key. The loop of
  \<^verbatim>\<open>TestConnICMPEcho\<close> on \<^verbatim>\<open>ip4\<close> evaluated with the test's own message and its
  buffer of \<^verbatim>\<open>20+len(wb)\<close> = 88 bytes: each datagram is an IPv4 header and an echo
  message of 68 bytes, and on its own it yields that message. The loop assigns
  \<^verbatim>\<open>rb = ipv4Payload(rb)\<close>, so every round leaves the next read a buffer 20 bytes
  shorter. After one echo request the reply comes back with 40 of its 60 data bytes;
  after four echo requests the buffer has 8 bytes, the reply's IPv4 header is parsed as
  a message of type 69, and that is what the loop returns instead of the reply.
\<close>

theorem echo_loop_ip4_buffer_shrinks:
  "length (wire_bytes (echo_test_message 8 0x1234 1)) = 68 \<and>
   ipv4Payload (ipv4_header @ wire_bytes (echo_test_message 8 0x1234 1)) =
     Inr (wire_bytes (echo_test_message 8 0x1234 1)) \<and>
   ipv4Payload (ipv4_header @ wire_bytes (echo_test_message 0 0x1234 1)) =
     Inr (wire_bytes (echo_test_message 0 0x1234 1)) \<and>
   parseICMPMessage (wire_bytes (echo_test_message 8 0x1234 1)) =
     Inr ((echo_test_message 8 0x1234 1)\<lparr>Checksum := 0xF78B\<rparr>) \<and>
   parseICMPMessage (wire_bytes (echo_test_message 0 0x1234 1)) =
     Inr ((echo_test_message 0 0x1234 1)\<lparr>Checksum := 0xFF8B\<rparr>) \<and>
   echo_loop True
     [Datagram (ipv4_header @ wire_bytes (echo_test_message 8 0x1234 1)),
      Datagram (ipv4_header @ wire_bytes (echo_test_message 0 0x1234 1))]
     (replicate (20 + 68) 0) =
     Inr \<lparr>Type = 0, Code = 0, Checksum = 0xFF8B,
          Body = Some (Echo \<lparr>ID = 0x1234, Seq = 1,
                             Data = Some (gadget_ping @ gadget_ping)\<rparr>)\<rparr> \<and>
   echo_loop True
     [Datagram (ipv4_header @ wire_bytes (echo_test_message 8 0x1234 1)),
      Datagram (ipv4_header @ wire_bytes (echo_test_message 8 0x1234 1)),
      Datagram (ipv4_header @ wire_bytes (echo_test_message 8 0x1234 1)),
      Datagram (ipv4_header @ wire_bytes (echo_test_message 8 0x1234 1)),
      Datagram (ipv4_header @ wire_bytes (echo_test_message 0 0x1234 1))]
     (replicate (20 + 68) 0) =
     Inr \<lparr>Type = 69, Code = 0, Checksum = 88, Body = None\<rparr>"
proof (intro conjI)
  show "length (wire_bytes (echo_test_message 8 0x1234 1)) = 68"
    by code_simp
  show "ipv4Payload (ipv4_header @ wire_bytes (echo_test_message 8 0x1234 1)) =
     Inr (wire_bytes (echo_test_message 8 0x1234 1))"
    by code_simp
  show "ipv4Payload (ipv4_header @ wire_bytes (echo_test_message 0 0x1234 1)) =
     Inr (wire_bytes (echo_test_message 0 0x1234 1))"
    by code_simp
  show "parseICMPMessage (wire_bytes (echo_test_message 8 0x1234 1)) =
     Inr ((echo_test_message 8 0x1234 1)\<lparr>Checksum := 0xF78B\<rparr>)"
    by code_simp
  show "parseICMPMessage (wire_bytes (echo_test_message 0 0x1234 1)) =
     Inr ((echo_test_message 0 0x1234 1)\<lparr>Checksum := 0xFF8B\<rparr>)"
    by code_simp
  show "echo_loop True
     [Datagram (ipv4_header @ wire_bytes (echo_test_message 8 0x1234 1)),
      Datagram (ipv4_header @ wire_bytes (echo_test_message 0 0x1234 1))]
     (replicate (20 + 68) 0) =
     Inr \<lparr>Type = 0, Code = 0, Checksum = 0xFF8B,
          Body = Some (Echo \<lparr>ID = 0x1234, Seq = 1,
                             Data = Some (gadget_ping @ gadget_ping)\<rparr>)\<rparr>"
    by code_simp
  show "echo_loop True
     [Datagram (ipv4_header @ wire_bytes (echo_test_message 8 0x1234 1)),
      Datagram (ipv4_header @ wire_bytes (echo_test_message 8 0x1234 1)),
      Datagram (ipv4_header @ wire_bytes (echo_test_message 8 0x1234 1)),
      Datagram (ipv4_header @ wire_bytes (echo_test_message 8 0x1234 1)),
      Datagram (ipv4_header @ wire_bytes (echo_test_message 0 0x1234 1))]
     (replicate (20 + 68) 0) =
     Inr \<lparr>Type = 69, Code = 0, Checksum = 88, Body = None\<rparr>"
    by code_simp
qed

subsection \<open>The encoded message verifies\<close>

text \<open>
  Claim C10, as stated: for every message whose type is not 128 or 129 and whose body is an
  echo body, the encoded bytes pass the receiver's check. The sum is kept in a
  \<^verbatim>\<open>uint32\<close>, which wraps around for a long payload: with 131074 payload bytes
  \<open>0xFF\<close> the sum \<open>8 + 65537 * 65535\<close> wraps to 7, the checksum bytes are
  \<open>F8 FF\<close>, and the folded sum over the encoded message is \<open>0x0100\<close>.
\<close>

theorem Marshal_checksum_overflow:
  "Marshal \<lparr>Type = 8, Code = 0, Checksum = 0,
            Body = Some (Echo \<lparr>ID = 0, Seq = 0, Data = Some (replicate (2 * 65537) 0xFF)\<rparr>)\<rparr> =
     Inr ([0x08, 0x00, 0xF8, 0xFF, 0, 0, 0, 0] @ replicate (2 * 65537) 0xFF) \<and>
   inet_fold (inet_sum ([0x08, 0x00, 0xF8, 0xFF, 0, 0, 0, 0] @ replicate (2 * 65537) 0xFF)) = 0x100"
proof
  have "header_body \<lparr>Type = 8, Code = 0, Checksum = 0,
            Body = Some (Echo \<lparr>ID = 0, Seq = 0, Data = Some (replicate (2 * 65537) 0xFF)\<rparr>)\<rparr> =
        Inr ([0x08, 0x00, 0, 0, 0, 0, 0, 0] @ replicate (2 * 65537) 0xFF)"
    by (simp add: header_body_bytes body_encoding_def to_byte_def elems_def)
  then show "Marshal \<lparr>Type = 8, Code = 0, Checksum = 0,
            Body = Some (Echo \<lparr>ID = 0, Seq = 0, Data = Some (replicate (2 * 65537) 0xFF)\<rparr>)\<rparr> =
     Inr ([0x08, 0x00, 0xF8, 0xFF, 0, 0, 0, 0] @ replicate (2 * 65537) 0xFF)"
    by (simp only: Marshal_def big_checksum sum.case icmp_types icmpMessage.simps) simp
  have "inet_sum ([0x08, 0x00, 0xF8, 0xFF, 0, 0, 0, 0] @ replicate (2 * 65537) 0xFF) = 4295033086"
    by (simp only: append_Cons append_Nil inet_sum.simps inet_sum_replicate) simp
  then show "inet_fold (inet_sum ([0x08, 0x00, 0xF8, 0xFF, 0, 0, 0, 0] @ replicate (2 * 65537) 0xFF)) = 0x100"
    by simp
qed

text \<open>
  Claim C10, amended: for every message whose type is not 128 or 129 and whose echo body
  has a payload of at most 131066 bytes (an encoded message of at most 131074 bytes, for
  which the 32-bit sum cannot wrap around), \<^verbatim>\<open>Marshal\<close> succeeds and the folded 16-bit
  one's-complement sum over its whole result, the checksum bytes included, is
  \<open>0xFFFF\<close>.
\<close>

theorem Marshal_checksum_verifies:
  assumes "Type m \<noteq> icmpv6EchoRequest" and "Type m \<noteq> icmpv6EchoReply"
    and "Body m = Some (Echo p)"
    and "length (elems (Data p)) \<le> 131066"
  shows "\<exists>b. Marshal m = Inr b \<and> inet_fold (inet_sum b) = 0xFFFF"
proof -
  have "length (body_encoding (Body m)) \<le> 131070"
    using assms(3,4) by (simp add: body_encoding_def)
  then have "inet_fold (inet_sum (put_checksum
      ([to_byte (Type m), to_byte (Code m), 0, 0] @ body_encoding (Body m)))) = 65535"
    by (rule put_checksum_verifies)
  with assms(1,2) show ?thesis
    by (simp add: Marshal_def header_body_bytes del: append_Cons)
qed

theorem Marshal_checksum_verifies_witness:
  "Marshal \<lparr>Type = 8, Code = 0, Checksum = 0,
            Body = Some (Echo \<lparr>ID = 0x1234, Seq = 1, Data = Some [0x47, 0x6F, 0x21]\<rparr>)\<rparr> =
     Inr [0x08, 0x00, 0x7D, 0x5B, 0x12, 0x34, 0x00, 0x01, 0x47, 0x6F, 0x21] \<and>
   inet_fold (inet_sum [0x08, 0x00, 0x7D, 0x5B, 0x12, 0x34, 0x00, 0x01, 0x47, 0x6F, 0x21]) = 0xFFFF"
proof -
  let ?p = "\<lparr>ID = 0x1234, Seq = 1, Data = Some [0x47, 0x6F, 0x21]\<rparr>"
  let ?m = "\<lparr>Type = 8, Code = 0, Checksum = 0, Body = Some (Echo ?p)\<rparr>"
  have "\<exists>b. Marshal ?m = Inr b \<and> inet_fold (inet_sum b) = 0xFFFF"
    by (rule Marshal_checksum_verifies [of ?m ?p]) (simp_all add: icmp_types elems_def)
  moreover have "Marshal ?m = Inr [0x08, 0x00, 0x7D, 0x5B, 0x12, 0x34, 0x00, 0x01, 0x47, 0x6F, 0x21]"
    by code_simp
  ultimately show ?thesis by simp
qed

end
